theory Spec2Isabelle
  imports Main
begin

section \<open>Observable actions and line readback\<close>

text \<open>
  The program drives eight output lines through RPi.GPIO. Every call the source makes on
  the platform driver, every timed pause and every acquisition and release of the
  class-level lock is recorded, in order, in a log of actions. A PWM object is identified
  by the pin it was created on. Durations are in milliseconds.
\<close>

datatype level = LOW | HIGH

datatype action =
    SetModeBCM                  \<comment> \<open>GPIO.setmode(GPIO.BCM)\<close>
  | Setup "int list"            \<comment> \<open>GPIO.setup(pins, GPIO.OUT)\<close>
  | Output int level            \<comment> \<open>GPIO.output(pin, level)\<close>
  | PWMNew int int              \<comment> \<open>GPIO.PWM(pin, frequency)\<close>
  | PWMStart int int            \<comment> \<open>pwm.start(duty)\<close>
  | ChangeDutyCycle int int     \<comment> \<open>pwm.ChangeDutyCycle(duty)\<close>
  | PWMStop int                 \<comment> \<open>pwm.stop()\<close>
  | Sleep nat                   \<comment> \<open>await asyncio.sleep(ms / 1000)\<close>
  | LockAcquire                 \<comment> \<open>entering async with self.lock\<close>
  | LockRelease                 \<comment> \<open>leaving async with self.lock\<close>
  | GPIOCleanup                 \<comment> \<open>GPIO.cleanup()\<close>

datatype error = ValueError | RuntimeError | IndexError | CancelledError | AttributeError

datatype outcome = Returned | Raised error

text \<open>Which actions write to a line (digital level or PWM).\<close>

fun is_line_write :: "action \<Rightarrow> bool" where
  "is_line_write (Output p l) = True"
| "is_line_write (PWMNew p f) = True"
| "is_line_write (PWMStart p d) = True"
| "is_line_write (ChangeDutyCycle p d) = True"
| "is_line_write (PWMStop p) = True"
| "is_line_write a = False"

text \<open>
  The digital level a line reads after a log: the level of the last GPIO.output on it
  (none if it was never written, or if GPIO.cleanup released it since).
\<close>

fun level_step :: "int \<Rightarrow> level option \<Rightarrow> action \<Rightarrow> level option" where
  "level_step p acc (Output q l) = (if q = p then Some l else acc)"
| "level_step p acc GPIOCleanup = None"
| "level_step p acc a = acc"

definition line_level :: "action list \<Rightarrow> int \<Rightarrow> level option" where
  "line_level tr p = foldl (level_step p) None tr"

text \<open>Whether PWM is running on a line after a log: started and not stopped since.\<close>

fun pwm_step :: "int \<Rightarrow> bool \<Rightarrow> action \<Rightarrow> bool" where
  "pwm_step p acc (PWMStart q d) = (if q = p then True else acc)"
| "pwm_step p acc (PWMStop q) = (if q = p then False else acc)"
| "pwm_step p acc GPIOCleanup = False"
| "pwm_step p acc a = acc"

definition pwm_running :: "action list \<Rightarrow> int \<Rightarrow> bool" where
  "pwm_running tr p = foldl (pwm_step p) False tr"

definition reads_low :: "action list \<Rightarrow> int \<Rightarrow> bool" where
  "reads_low tr p = (line_level tr p = Some LOW \<and> \<not> pwm_running tr p)"

section \<open>Python string and integer primitives used by the encoder\<close>

definition digit_char :: "nat \<Rightarrow> char" where
  "digit_char d = ''0123456789'' ! d"

definition digit_val :: "char \<Rightarrow> nat option" where
  "digit_val c =
     map_of [(CHR ''0'', 0), (CHR ''1'', 1), (CHR ''2'', 2), (CHR ''3'', 3), (CHR ''4'', 4),
             (CHR ''5'', 5), (CHR ''6'', 6), (CHR ''7'', 7), (CHR ''8'', 8), (CHR ''9'', 9)] c"

text \<open>The digits of a natural number in base 2 and in base 10, most significant first.\<close>

fun bin_digits :: "nat \<Rightarrow> string" where
  "bin_digits n = (if n < 2 then [digit_char n] else bin_digits (n div 2) @ [digit_char (n mod 2)])"

fun dec_digits :: "nat \<Rightarrow> string" where
  "dec_digits n = (if n < 10 then [digit_char n] else dec_digits (n div 10) @ [digit_char (n mod 10)])"

declare bin_digits.simps [simp del] dec_digits.simps [simp del]

text \<open>\<^verbatim>\<open>bin(number)\<close>: a sign, the prefix 0b, the binary digits.\<close>

definition py_bin :: "int \<Rightarrow> string" where
  "py_bin n = (if n < 0 then ''-0b'' @ bin_digits (nat (- n)) else ''0b'' @ bin_digits (nat n))"

text \<open>
  \<^verbatim>\<open>int(s)\<close> on the strings the encoder passes: a non-empty run of decimal digits is
  read in base 10; anything else (such as the \<^verbatim>\<open>b101\<close> left of a negative number)
  raises ValueError, here \<open>None\<close>.
\<close>

fun py_int_digits :: "int \<Rightarrow> string \<Rightarrow> int option" where
  "py_int_digits acc [] = Some acc"
| "py_int_digits acc (c # cs) =
     (case digit_val c of None \<Rightarrow> None | Some d \<Rightarrow> py_int_digits (10 * acc + int d) cs)"

definition py_int :: "string \<Rightarrow> int option" where
  "py_int s = (if s = [] then None else py_int_digits 0 s)"

text \<open>\<^verbatim>\<open>f'{v:07}'\<close>: the decimal digits, zero-padded after the sign to seven characters.\<close>

definition py_format_07 :: "int \<Rightarrow> string" where
  "py_format_07 v =
     (if v < 0
      then CHR ''-'' # replicate (6 - length (dec_digits (nat (- v)))) CHR ''0'' @ dec_digits (nat (- v))
      else replicate (7 - length (dec_digits (nat v))) CHR ''0'' @ dec_digits (nat v))"

text \<open>\<^verbatim>\<open>s[i]\<close> for a non-negative index: IndexError past the end.\<close>

definition py_char_at :: "string \<Rightarrow> nat \<Rightarrow> char option" where
  "py_char_at s i = (if i < length s then Some (s ! i) else None)"

section \<open>StandalonePWM: the background oscillator object\<close>

text \<open>
  The state of the concurrent.futures.Future returned by run(): still running, finished,
  or cancelled.
\<close>

datatype fut = Pending | Finished | Cancelled

record standalone_pwm =
  stop_request :: bool
  pwm :: "int option"
  future :: "fut option"

text \<open>\<^verbatim>\<open>__init__\<close>: a fresh stop flag, a PWM object at 50 Hz started at duty 0, no future yet.\<close>

definition standalone_pwm_init :: "int \<Rightarrow> standalone_pwm \<times> action list" where
  "standalone_pwm_init pin =
     (\<lparr>stop_request = False, pwm = Some pin, future = None\<rparr>, [PWMNew pin 50, PWMStart pin 0])"

definition set_stop :: "standalone_pwm \<Rightarrow> standalone_pwm" where
  "set_stop osc = osc\<lparr>stop_request := True\<rparr>"

definition run :: "standalone_pwm \<Rightarrow> standalone_pwm" where
  "run osc = osc\<lparr>future := Some Pending\<rparr>"

text \<open>\<^verbatim>\<open>Future.cancel()\<close>: a running future becomes cancelled, a settled one stays as it is.\<close>

fun fut_cancel :: "fut \<Rightarrow> fut" where
  "fut_cancel Pending = Cancelled"
| "fut_cancel Finished = Finished"
| "fut_cancel Cancelled = Cancelled"

definition force_stop :: "standalone_pwm \<Rightarrow> outcome \<times> standalone_pwm \<times> action list" where
  "force_stop osc =
     (case future osc of
        None \<Rightarrow> (Raised AttributeError, osc, [])
      | Some f \<Rightarrow>
          (let osc1 = osc\<lparr>future := Some (fut_cancel f)\<rparr>
           in case pwm osc1 of
                Some p \<Rightarrow> (Returned, osc1\<lparr>pwm := None\<rparr>, [PWMStop p])
              | None \<Rightarrow> (Returned, osc1, [])))"

text \<open>
  The last two statements of runnable, reached when the while loop sees the stop flag:
  \<^verbatim>\<open>self.pwm.stop(); self.pwm = None\<close>.
\<close>

definition runnable_exit :: "standalone_pwm \<Rightarrow> outcome \<times> standalone_pwm \<times> action list" where
  "runnable_exit osc =
     (case pwm osc of
        None \<Rightarrow> (Raised AttributeError, osc, [])
      | Some p \<Rightarrow> (Returned, osc\<lparr>pwm := None\<rparr>, [PWMStop p]))"

section \<open>LEDGPIO: the coordinator\<close>

text \<open>
  One call is modelled at a time, from entry to return, so the lock is free at every
  acquisition; acquiring and releasing are logged. What other coroutines do while a call
  is suspended enters as parameters: \<open>in_time\<close> says whether the oscillator's future
  settles within the one-second wait of clean_number, and \<open>stops i\<close> says whether
  stop_event is set by someone else during the sleeps of repetition \<open>i\<close> of a loop. The
  duty-cycle writes the oscillator makes on its own line while it runs are not part of the
  coordinator's log; its stopping of the PWM is.
\<close>

definition pins :: "int list" where
  "pins = [17, 27, 22, 5, 6, 13, 19, 26]"

record ledgpio =
  event :: bool
  stop_event :: bool
  clean_required :: bool
  breath_pwm :: "standalone_pwm option"
  trace :: "action list"
  stdout :: "int list"

definition ledgpio_init :: ledgpio where
  "ledgpio_init =
     \<lparr>event = False, stop_event = False, clean_required = False, breath_pwm = None,
      trace = [SetModeBCM, Setup pins], stdout = []\<rparr>"

definition emit :: "action list \<Rightarrow> ledgpio \<Rightarrow> ledgpio" where
  "emit as st = st\<lparr>trace := trace st @ as\<rparr>"

text \<open>
  Lines 179-184 of clean_number: if an oscillator object is held, set its stop flag and
  wait up to one second on its future; on TimeoutError force-stop it. Any other exception
  of \<^verbatim>\<open>result\<close> is not caught.
\<close>

definition reconcile :: "bool \<Rightarrow> ledgpio \<Rightarrow> outcome \<times> ledgpio" where
  "reconcile in_time st =
     (case breath_pwm st of
        None \<Rightarrow> (Returned, st)
      | Some osc \<Rightarrow>
          (let osc1 = set_stop osc in
           case future osc1 of
             None \<Rightarrow> (Raised AttributeError, st\<lparr>breath_pwm := Some osc1\<rparr>)
           | Some Cancelled \<Rightarrow> (Raised CancelledError, st\<lparr>breath_pwm := Some osc1\<rparr>)
           | Some Finished \<Rightarrow> (Returned, st\<lparr>breath_pwm := Some osc1\<rparr>)
           | Some Pending \<Rightarrow>
               (if in_time
                then (case runnable_exit osc1 of
                        (r, osc2, as) \<Rightarrow>
                          (r, emit as (st\<lparr>breath_pwm := Some (osc2\<lparr>future := Some Finished\<rparr>)\<rparr>)))
                else (case force_stop osc1 of
                        (r, osc2, as) \<Rightarrow> (r, emit as (st\<lparr>breath_pwm := Some osc2\<rparr>))))))"

definition clean_number :: "bool \<Rightarrow> ledgpio \<Rightarrow> outcome \<times> ledgpio" where
  "clean_number in_time st =
     (case reconcile in_time (emit [LockAcquire] st) of
        (Raised e, st1) \<Rightarrow> (Raised e, emit [LockRelease] st1)
      | (Returned, st1) \<Rightarrow>
          (Returned,
           emit [LockRelease] ((emit (map (\<lambda>pin. Output pin LOW) pins) st1)\<lparr>clean_required := False\<rparr>)))"

text \<open>
  The seven writes of show_number: character \<open>i\<close> of \<open>b\<close> is read as an integer and line
  \<open>pins[i + 1]\<close> is driven HIGH when it is non-zero. A character that is missing or not a
  digit raises, and the writes made so far stay.
\<close>

fun write_bits :: "string \<Rightarrow> nat list \<Rightarrow> action list \<Rightarrow> outcome \<times> action list" where
  "write_bits b [] acc = (Returned, acc)"
| "write_bits b (i # is) acc =
     (case py_char_at b i of
        None \<Rightarrow> (Raised IndexError, acc)
      | Some c \<Rightarrow>
          (case digit_val c of
             None \<Rightarrow> (Raised ValueError, acc)
           | Some d \<Rightarrow>
               write_bits b is (acc @ [Output (pins ! (i + 1)) (if d \<noteq> 0 then HIGH else LOW)])))"

definition show_number :: "int \<Rightarrow> bool \<Rightarrow> ledgpio \<Rightarrow> outcome \<times> ledgpio" where
  "show_number number show_breath st =
     (let st0 = st\<lparr>stdout := stdout st @ [number]\<rparr> in
      if \<not> (128 > number \<and> number > 0) then (Raised ValueError, st0)
      else
        (let st1 = (emit [LockAcquire] st0)\<lparr>event := True\<rparr>;
             st2 = (if show_breath
                    then (case standalone_pwm_init (pins ! 0) of
                            (osc, as) \<Rightarrow> (emit as st1)\<lparr>breath_pwm := Some (run osc)\<rparr>)
                    else st1);
             st3 = st2\<lparr>clean_required := True\<rparr>
         in case py_int (drop 2 (py_bin number)) of
              None \<Rightarrow> (Raised ValueError, emit [LockRelease] st3)
            | Some v \<Rightarrow>
                (case write_bits (py_format_07 v) [0 ..< 7] [] of
                   (Raised e, as) \<Rightarrow> (Raised e, emit [LockRelease] (emit as st3))
                 | (Returned, as) \<Rightarrow>
                     (Returned, emit [LockRelease] ((emit as st3)\<lparr>event := False\<rparr>)))))"

text \<open>
  close tests the Event object \<^verbatim>\<open>self.clean_required\<close> itself, not its flag; an
  asyncio.Event defines neither \<^verbatim>\<open>__bool__\<close> nor \<^verbatim>\<open>__len__\<close>, so the test succeeds
  whatever the flag holds.
\<close>

definition event_object_truthy :: "bool \<Rightarrow> bool" where
  "event_object_truthy flag = True"

definition close :: "bool \<Rightarrow> ledgpio \<Rightarrow> outcome \<times> ledgpio" where
  "close in_time st =
     (if event st then (Raised RuntimeError, st)
      else
        (case (if event_object_truthy (clean_required st) then clean_number in_time st
               else (Returned, st)) of
           (Raised e, st1) \<Rightarrow> (Raised e, st1)
         | (Returned, st1) \<Rightarrow> (Returned, emit [GPIOCleanup] st1)))"

subsection \<open>Flash\<close>

text \<open>\<^verbatim>\<open>_unsafe_set_light_flash\<close>: all given lines HIGH, 0.2 s, all given lines LOW.\<close>

definition unsafe_set_light_flash :: "int list \<Rightarrow> action list" where
  "unsafe_set_light_flash ps =
     map (\<lambda>pin. Output pin HIGH) ps @ [Sleep 200] @ map (\<lambda>pin. Output pin LOW) ps"

text \<open>
  While a call sleeps, another coroutine may set stop_event; nothing in this class clears it
  except the start of an effect.
\<close>

definition suspend :: "bool \<Rightarrow> ledgpio \<Rightarrow> ledgpio" where
  "suspend set_by_other st = st\<lparr>stop_event := stop_event st \<or> set_by_other\<rparr>"

text \<open>
  The loop \<^verbatim>\<open>for _ in range(times): if self.stop_event.is_set(): break; <body>\<close> of
  \<^verbatim>\<open>_set_light_flash_num\<close> (lines 111-114) and of set_light_breath (lines 153-157):
  \<open>n\<close> repetitions are left, \<open>i\<close> have been made, and every body ends in a sleep.
\<close>

fun repeat_until_stop :: "nat \<Rightarrow> nat \<Rightarrow> (nat \<Rightarrow> bool) \<Rightarrow> action list \<Rightarrow> ledgpio \<Rightarrow> ledgpio" where
  "repeat_until_stop 0 i stops body st = st"
| "repeat_until_stop (Suc n) i stops body st =
     (if stop_event st then st
      else repeat_until_stop n (Suc i) stops body (suspend (stops i) (emit body st)))"

text \<open>\<^verbatim>\<open>range(times)\<close> makes \<open>nat times\<close> repetitions: none when \<open>times \<le> 0\<close>.\<close>

definition set_light_flash_num ::
  "bool \<Rightarrow> (nat \<Rightarrow> bool) \<Rightarrow> int \<Rightarrow> int list \<Rightarrow> ledgpio \<Rightarrow> outcome \<times> ledgpio" where
  "set_light_flash_num in_time stops times' ps st =
     (case (if clean_required st then clean_number in_time st else (Returned, st)) of
        (Raised e, st1) \<Rightarrow> (Raised e, st1)
      | (Returned, st1) \<Rightarrow>
          (let st2 = (emit [LockAcquire] st1)\<lparr>event := True, stop_event := False\<rparr>;
               st3 = repeat_until_stop (nat times') 0 stops (unsafe_set_light_flash ps) st2
           in (Returned, emit [LockRelease] (st3\<lparr>event := False\<rparr>))))"

text \<open>The slice \<^verbatim>\<open>xs[k::2]\<close> is every second element of \<open>drop k xs\<close>.\<close>

fun every_second :: "'a list \<Rightarrow> 'a list" where
  "every_second [] = []"
| "every_second [x] = [x]"
| "every_second (x # y # xs) = x # every_second xs"

definition set_light_flash ::
  "bool \<Rightarrow> (nat \<Rightarrow> bool) \<Rightarrow> int \<Rightarrow> int list option \<Rightarrow> bool \<Rightarrow> ledgpio \<Rightarrow> outcome \<times> ledgpio" where
  "set_light_flash in_time stops times' custom_pins is_odd st =
     (let ps = (case custom_pins of
                  None \<Rightarrow> every_second (drop (if \<not> is_odd then 1 else 0) pins)
                | Some cp \<Rightarrow> cp)
      in set_light_flash_num in_time stops times' ps st)"

subsection \<open>Breath\<close>

text \<open>
  One pass of an inner loop of \<^verbatim>\<open>_unsafe_light_breath\<close>: the duty cycle \<open>dc * 10\<close> on
  every PWM object, then 0.05 s.
\<close>

definition ramp_step :: "int list \<Rightarrow> nat \<Rightarrow> action list" where
  "ramp_step pwms dc = map (\<lambda>p. ChangeDutyCycle p (int dc * 10)) pwms @ [Sleep 50]"

text \<open>\<^verbatim>\<open>for dc in range(10)\<close>\<close>

definition ramp_up :: "int list \<Rightarrow> action list" where
  "ramp_up pwms = concat (map (ramp_step pwms) [0 ..< 10])"

text \<open>\<^verbatim>\<open>for dc in range(10, -1, -1)\<close>\<close>

definition ramp_down :: "int list \<Rightarrow> action list" where
  "ramp_down pwms = concat (map (ramp_step pwms) (rev [0 ..< 11]))"

definition unsafe_light_breath :: "int list \<Rightarrow> action list" where
  "unsafe_light_breath pwms = ramp_up pwms @ [Sleep 50] @ ramp_down pwms"

text \<open>\<^verbatim>\<open>xs[i]\<close> for any integer index: negative indices count from the end.\<close>

definition py_index :: "'a list \<Rightarrow> int \<Rightarrow> 'a option" where
  "py_index xs i =
     (if 0 \<le> i \<and> i < int (length xs) then Some (xs ! nat i)
      else if i < 0 \<and> - int (length xs) \<le> i then Some (xs ! nat (int (length xs) + i))
      else None)"

text \<open>\<^verbatim>\<open>[self.pins[x - 1] for x in pins]\<close>; \<open>None\<close> is IndexError.\<close>

fun resolve_pins :: "int list \<Rightarrow> int list option" where
  "resolve_pins [] = Some []"
| "resolve_pins (x # xs) =
     (case py_index pins (x - 1) of
        None \<Rightarrow> None
      | Some p \<Rightarrow> (case resolve_pins xs of None \<Rightarrow> None | Some ps \<Rightarrow> Some (p # ps)))"

text \<open>
  The loop \<^verbatim>\<open>while True: if self.stop_event.is_set(): break; <body>\<close> (lines 147-151).
  It has no other exit, so it need not return: \<open>None\<close> is a call that never returns.
\<close>

partial_function (option) repeat_forever ::
  "nat \<Rightarrow> (nat \<Rightarrow> bool) \<Rightarrow> action list \<Rightarrow> ledgpio \<Rightarrow> ledgpio option" where
  "repeat_forever i stops body st =
     (if stop_event st then Some st
      else repeat_forever (Suc i) stops body (suspend (stops i) (emit body st)))"

declare repeat_forever.simps [code]

definition set_light_breath ::
  "bool \<Rightarrow> (nat \<Rightarrow> bool) \<Rightarrow> int option \<Rightarrow> int list option \<Rightarrow> ledgpio \<Rightarrow> (outcome \<times> ledgpio) option" where
  "set_light_breath in_time stops times' pins_arg st =
     (case (case pins_arg of None \<Rightarrow> Some pins | Some xs \<Rightarrow> resolve_pins xs) of
        None \<Rightarrow> Some (Raised IndexError, st)
      | Some ps \<Rightarrow>
          (case (if clean_required st then clean_number in_time st else (Returned, st)) of
             (Raised e, st1) \<Rightarrow> Some (Raised e, st1)
           | (Returned, st1) \<Rightarrow>
               (let st2 = (emit [LockAcquire] st1)\<lparr>event := True, stop_event := False\<rparr>;
                    st3 = emit (map (\<lambda>pin. PWMNew pin 50) ps @ map (\<lambda>p. PWMStart p 0) ps) st2;
                    body = unsafe_light_breath ps @ [Sleep 50]
                in case (case times' of
                           None \<Rightarrow> repeat_forever 0 stops body st3
                         | Some k \<Rightarrow> Some (repeat_until_stop (nat k) 0 stops body st3)) of
                     None \<Rightarrow> None
                   | Some st4 \<Rightarrow>
                       Some (Returned,
                             emit [LockRelease] ((emit (map PWMStop ps) st4)\<lparr>event := False\<rparr>)))))"

subsection \<open>Arguments left out, and the request handlers\<close>



text \<open>
  The handlers of api_server.py, without their HTTP responses:
  \<^verbatim>\<open>light_control\<close> awaits \<^verbatim>\<open>set_light_flash(3, custom_pins=self.gpio.pins)\<close> and
  \<^verbatim>\<open>breath_control\<close> awaits \<^verbatim>\<open>set_light_breath()\<close>.
\<close>

definition light_control :: "bool \<Rightarrow> (nat \<Rightarrow> bool) \<Rightarrow> ledgpio \<Rightarrow> outcome \<times> ledgpio" where
  "light_control in_time stops st = set_light_flash in_time stops 3 (Some pins) True st"


section \<open>The oscillator coroutine, step by step\<close>

text \<open>
  The body of the while loop of runnable, as the sequence of its 44 statements: ten duty
  cycles 0, 10, .., 90 each followed by 0.2 s, then 1 s, eleven duty cycles 100, 90, .., 0
  each followed by 0.2 s, then 1 s.
\<close>

datatype osc_op = Duty int | Pause nat

definition runnable_body :: "osc_op list" where
  "runnable_body =
     concat (map (\<lambda>dc. [Duty (int dc * 10), Pause 200]) [0 ..< 10]) @ [Pause 1000]
       @ concat (map (\<lambda>dc. [Duty (int dc * 10), Pause 200]) (rev [0 ..< 11])) @ [Pause 1000]"

text \<open>
  Where the coroutine stands: about to test the loop condition, about to run statement
  \<open>k\<close> of the body, returned, or stopped by an exception.
\<close>

datatype pc = AtCheck | InBody nat | Exited | Crashed

record task =
  obj :: standalone_pwm
  pc :: pc
  log :: "action list"

definition advance :: "nat \<Rightarrow> task \<Rightarrow> task" where
  "advance k t = t\<lparr>pc := (if Suc k < length runnable_body then InBody (Suc k) else AtCheck)\<rparr>"

fun runnable_op :: "osc_op \<Rightarrow> nat \<Rightarrow> task \<Rightarrow> task" where
  "runnable_op (Duty d) k t =
     (case pwm (obj t) of
        None \<Rightarrow> t\<lparr>pc := Crashed\<rparr>
      | Some p \<Rightarrow> advance k (t\<lparr>log := log t @ [ChangeDutyCycle p d]\<rparr>))"
| "runnable_op (Pause ms) k t = advance k (t\<lparr>log := log t @ [Sleep ms]\<rparr>)"

text \<open>
  One step of runnable. The stop flag is read in one place only, the condition of the while
  loop.
\<close>

definition runnable_step :: "task \<Rightarrow> task" where
  "runnable_step t =
     (case pc t of
        AtCheck \<Rightarrow>
          (if \<not> stop_request (obj t) then t\<lparr>pc := InBody 0\<rparr>
           else (case runnable_exit (obj t) of
                   (Returned, osc, as) \<Rightarrow>
                     t\<lparr>obj := osc\<lparr>future := Some Finished\<rparr>, pc := Exited, log := log t @ as\<rparr>
                 | (Raised e, osc, as) \<Rightarrow> t\<lparr>pc := Crashed\<rparr>))
      | InBody k \<Rightarrow>
          (if k < length runnable_body then runnable_op (runnable_body ! k) k t
           else t\<lparr>pc := AtCheck\<rparr>)
      | Exited \<Rightarrow> t
      | Crashed \<Rightarrow> t)"


text \<open>\<^verbatim>\<open>set_stop\<close> called from outside while the coroutine is suspended.\<close>

definition request_stop :: "task \<Rightarrow> task" where
  "request_stop t = t\<lparr>obj := set_stop (obj t)\<rparr>"


text \<open>The statements still to run before the next test of the loop condition.\<close>

fun remaining :: "pc \<Rightarrow> nat" where
  "remaining (InBody k) = length runnable_body - k"
| "remaining p = 0"

text \<open>What a statement of the body does on the line of PWM object \<open>p\<close>.\<close>

fun op_action :: "int \<Rightarrow> osc_op \<Rightarrow> action" where
  "op_action p (Duty d) = ChangeDutyCycle p d"
| "op_action p (Pause ms) = Sleep ms"

fun rest_of_pass :: "int \<Rightarrow> pc \<Rightarrow> action list" where
  "rest_of_pass p (InBody k) = map (op_action p) (drop k runnable_body)"
| "rest_of_pass p q = []"

text \<open>The time a log spends asleep, in milliseconds.\<close>

fun sleep_total :: "action list \<Rightarrow> nat" where
  "sleep_total [] = 0"
| "sleep_total (Sleep ms # as) = ms + sleep_total as"
| "sleep_total (a # as) = sleep_total as"

section \<open>Reading the log\<close>

text \<open>
  Reading the display back: the levels of the seven lines \<open>pins[1]\<close> to \<open>pins[7]\<close>, taken
  as a binary number with the first of them the most significant bit. There is nothing to
  read while one of the lines has no level.
\<close>

definition read_number :: "action list \<Rightarrow> int option" where
  "read_number tr =
     (case those (map (line_level tr) (drop 1 pins)) of
        None \<Rightarrow> None
      | Some ls \<Rightarrow> Some (foldl (\<lambda>acc l. 2 * acc + (if l = HIGH then 1 else 0)) 0 ls))"

section \<open>Auxiliary functions for the proofs\<close>

text \<open>
  The PWM stop that clean_number logs for the oscillator it holds: one stop when the
  oscillator's future is still running and its PWM object is still there, nothing otherwise.
\<close>

definition stop_actions :: "ledgpio \<Rightarrow> action list" where
  "stop_actions st =
     (case breath_pwm st of
        None \<Rightarrow> []
      | Some osc \<Rightarrow>
          (if future osc = Some Pending
           then (case pwm osc of None \<Rightarrow> [] | Some p \<Rightarrow> [PWMStop p])
           else []))"

text \<open>Two particular behaviours of the other coroutines: stop_event is never set, or it is
  set during repetition \<open>j\<close>.\<close>

definition never :: "nat \<Rightarrow> bool" where
  "never i = False"


text \<open>The duty cycles written to the PWM object \<open>p\<close> in a log, in order.\<close>

fun duty_writes :: "int \<Rightarrow> action list \<Rightarrow> int list" where
  "duty_writes p [] = []"
| "duty_writes p (ChangeDutyCycle q d # as) = (if q = p then d # duty_writes p as else duty_writes p as)"
| "duty_writes p (a # as) = duty_writes p as"

text \<open>
  What happens on the line of the PWM object \<open>p\<close> in a log, in order: the duty cycles
  written to \<open>p\<close> and the sleeps between them.
\<close>

fun line_view :: "int \<Rightarrow> action list \<Rightarrow> action list" where
  "line_view p [] = []"
| "line_view p (ChangeDutyCycle q d # as) =
     (if q = p then ChangeDutyCycle q d # line_view p as else line_view p as)"
| "line_view p (Sleep ms # as) = Sleep ms # line_view p as"
| "line_view p (a # as) = line_view p as"

text \<open>The durations of the sleeps in a log, in order.\<close>

fun sleeps :: "action list \<Rightarrow> nat list" where
  "sleeps [] = []"
| "sleeps (Sleep ms # as) = ms # sleeps as"
| "sleeps (a # as) = sleeps as"


text \<open>The part of the log of \<open>st'\<close> that was added after \<open>st\<close>.\<close>

definition added :: "ledgpio \<Rightarrow> ledgpio \<Rightarrow> action list" where
  "added st st' = drop (length (trace st)) (trace st')"

text \<open>The coordinator right after \<^verbatim>\<open>show_number(5)\<close> on a fresh instance.\<close>

definition displaying_5 :: ledgpio where
  "displaying_5 = snd (show_number 5 True ledgpio_init)"

text \<open>
  The coordinator after \<^verbatim>\<open>show_number(5)\<close> and then the /light request, the one-second
  wait for the oscillator having timed out; and after a further
  \<^verbatim>\<open>show_number(3, show_breath=False)\<close>.
\<close>

definition after_light :: ledgpio where
  "after_light = snd (light_control False never displaying_5)"

definition stale_display :: ledgpio where
  "stale_display = snd (show_number 3 False after_light)"


text \<open>The decimal number whose decimal digits are the binary digits of \<open>n\<close>.\<close>

fun bits_as_decimal :: "nat \<Rightarrow> nat" where
  "bits_as_decimal n = (if n < 2 then n else 10 * bits_as_decimal (n div 2) + n mod 2)"

declare bits_as_decimal.simps [simp del]

text \<open>The \<open>k\<close> low binary digits of \<open>n\<close>, most significant first.\<close>

fun bin_pad :: "nat \<Rightarrow> nat \<Rightarrow> string" where
  "bin_pad 0 n = []"
| "bin_pad (Suc k) n = bin_pad k (n div 2) @ [digit_char (n mod 2)]"

section \<open>Properties\<close>

subsection \<open>The encoder\<close>

lemma digit_val_digit_char: "d < 10 \<Longrightarrow> digit_val (digit_char d) = Some d"
proof -
  assume "d < 10"
  then have "d \<in> {0,1,2,3,4,5,6,7,8,9}" by auto
  then show ?thesis by (auto simp: digit_val_def digit_char_def)
qed

lemma py_int_digits_snoc:
  "py_int_digits acc (s @ [c]) =
     (case py_int_digits acc s of None \<Rightarrow> None
      | Some v \<Rightarrow> (case digit_val c of None \<Rightarrow> None | Some d \<Rightarrow> Some (10 * v + int d)))"
  by (induction s arbitrary: acc) (auto split: option.splits)

lemma py_int_digits_bin: "py_int_digits 0 (bin_digits n) = Some (int (bits_as_decimal n))"
proof (induction n rule: bin_digits.induct)
  case (1 n)
  show ?case
  proof (cases "n < 2")
    case True
    then show ?thesis
      by (subst bin_digits.simps, subst bits_as_decimal.simps) (simp add: digit_val_digit_char)
  next
    case False
    with 1 have ih: "py_int_digits 0 (bin_digits (n div 2)) = Some (int (bits_as_decimal (n div 2)))"
      by simp
    from False show ?thesis
      by (subst bin_digits.simps, subst bits_as_decimal.simps)
         (simp add: py_int_digits_snoc ih digit_val_digit_char)
  qed
qed

lemma bin_digits_nonempty: "bin_digits n \<noteq> []"
  by (subst bin_digits.simps) simp

lemma bits_as_decimal_pos: "0 < n \<Longrightarrow> 0 < bits_as_decimal n"
  by (induction n rule: bits_as_decimal.induct) (subst bits_as_decimal.simps, auto)

lemma dec_digits_bits: "dec_digits (bits_as_decimal n) = bin_digits n"
proof (induction n rule: bin_digits.induct)
  case (1 n)
  show ?case
  proof (cases "n < 2")
    case True
    then show ?thesis
      by (subst bits_as_decimal.simps, subst dec_digits.simps, subst bin_digits.simps) simp
  next
    case False
    then have "0 < n div 2" by simp
    then have pos: "0 < bits_as_decimal (n div 2)" by (rule bits_as_decimal_pos)
    from False 1 have ih: "dec_digits (bits_as_decimal (n div 2)) = bin_digits (n div 2)" by simp
    have eq: "bits_as_decimal n = 10 * bits_as_decimal (n div 2) + n mod 2"
      using False by (subst bits_as_decimal.simps) simp
    have "dec_digits (bits_as_decimal n) =
            dec_digits (bits_as_decimal n div 10) @ [digit_char (bits_as_decimal n mod 10)]"
      using pos eq by (subst dec_digits.simps) simp
    also have "bits_as_decimal n div 10 = bits_as_decimal (n div 2)" using eq by simp
    also have "bits_as_decimal n mod 10 = n mod 2" using eq by simp
    finally show ?thesis using False ih by (subst bin_digits.simps) simp
  qed
qed

lemma bin_pad_zero: "bin_pad k 0 = replicate k CHR ''0''"
  by (induction k) (auto simp: digit_char_def replicate_append_same)

lemma length_bin_pad: "length (bin_pad k n) = k"
  by (induction k arbitrary: n) auto

lemma pad_bin_digits:
  "n < 2 ^ k \<Longrightarrow> 0 < k \<Longrightarrow> replicate (k - length (bin_digits n)) CHR ''0'' @ bin_digits n = bin_pad k n"
proof (induction k arbitrary: n)
  case 0
  then show ?case by simp
next
  case (Suc k)
  show ?case
  proof (cases "n < 2")
    case True
    then have "n div 2 = 0" by simp
    with True show ?thesis
      by (subst (1 2) bin_digits.simps) (simp add: bin_pad_zero)
  next
    case False
    from Suc.prems have lt: "n div 2 < 2 ^ k" by auto
    from False lt have "0 < k" by (cases k) auto
    with Suc.IH lt have ih:
      "replicate (k - length (bin_digits (n div 2))) CHR ''0'' @ bin_digits (n div 2) = bin_pad k (n div 2)"
      by simp
    from False show ?thesis
      by (subst (1 2) bin_digits.simps) (simp add: ih [symmetric])
  qed
qed

lemma bin_pad_nth:
  "i < k \<Longrightarrow> bin_pad k n ! i = digit_char ((n div 2 ^ (k - 1 - i)) mod 2)"
proof (induction k arbitrary: n i)
  case 0
  then show ?case by simp
next
  case (Suc k)
  show ?case
  proof (cases "i < k")
    case True
    then have "bin_pad (Suc k) n ! i = bin_pad k (n div 2) ! i"
      by (simp add: nth_append length_bin_pad)
    also have "\<dots> = digit_char ((n div 2 div 2 ^ (k - 1 - i)) mod 2)"
      using True by (rule Suc.IH)
    also have "n div 2 div 2 ^ (k - 1 - i) = n div 2 ^ (Suc (k - 1 - i))"
      by (simp add: div_mult2_eq)
    also have "Suc (k - 1 - i) = Suc k - 1 - i" using True by simp
    finally show ?thesis .
  next
    case False
    with Suc.prems have "i = k" by simp
    then show ?thesis by (simp add: nth_append length_bin_pad)
  qed
qed

lemma encode_string:
  assumes "0 < number" "number < 128"
  shows "py_int (drop 2 (py_bin number)) = Some (int (bits_as_decimal (nat number)))"
    and "py_format_07 (int (bits_as_decimal (nat number))) = bin_pad 7 (nat number)"
proof -
  show "py_int (drop 2 (py_bin number)) = Some (int (bits_as_decimal (nat number)))"
    using assms by (simp add: py_bin_def py_int_def bin_digits_nonempty py_int_digits_bin)
  have "nat number < 2 ^ 7" using assms by simp
  then show "py_format_07 (int (bits_as_decimal (nat number))) = bin_pad 7 (nat number)"
    using pad_bin_digits [of "nat number" 7] by (simp add: py_format_07_def dec_digits_bits)
qed


lemma write_bits_all:
  "\<forall>i \<in> set is. i < length b \<and> digit_val (b ! i) \<noteq> None \<Longrightarrow>
   write_bits b is acc =
     (Returned, acc @ map (\<lambda>i. Output (pins ! (i + 1)) (if the (digit_val (b ! i)) \<noteq> 0 then HIGH else LOW)) is)"
  by (induction "is" arbitrary: acc) (auto simp: py_char_at_def)

lemma write_bits_bin_pad:
  "write_bits (bin_pad 7 n) [0 ..< 7] [] =
     (Returned, map (\<lambda>i. Output (pins ! (i + 1)) (if (n div 2 ^ (6 - i)) mod 2 = 1 then HIGH else LOW)) [0 ..< 7])"
proof -
  have d: "digit_val (bin_pad 7 n ! i) = Some ((n div 2 ^ (6 - i)) mod 2)" if "i < 7" for i
    using that by (simp add: bin_pad_nth digit_val_digit_char)
  have "write_bits (bin_pad 7 n) [0 ..< 7] [] =
     (Returned, [] @ map (\<lambda>i. Output (pins ! (i + 1)) (if the (digit_val (bin_pad 7 n ! i)) \<noteq> 0 then HIGH else LOW)) [0 ..< 7])"
    by (rule write_bits_all) (simp add: length_bin_pad d)
  also have "map (\<lambda>i. Output (pins ! (i + 1)) (if the (digit_val (bin_pad 7 n ! i)) \<noteq> 0 then HIGH else LOW)) [0 ..< 7]
      = map (\<lambda>i. Output (pins ! (i + 1)) (if (n div 2 ^ (6 - i)) mod 2 = 1 then HIGH else LOW)) [0 ..< 7]"
    by (rule map_cong) (auto simp: d)
  finally show ?thesis by simp
qed

lemma upt_7: "[0 ..< 7] = [0, 1, 2, 3, 4, 5, 6 :: nat]"
  by (simp add: upt_rec)

lemma bit_split: "(n::int) mod (m * 2) = m * (n div m mod 2) + n mod m"
  by (rule zmod_zmult2_eq) simp

lemma bit_sum_128:
  assumes "0 \<le> n" "n < 128"
  shows "64 * (n div 64 mod 2) + 32 * (n div 32 mod 2) + 16 * (n div 16 mod 2) + 8 * (n div 8 mod 2)
     + 4 * (n div 4 mod 2) + 2 * (n div 2 mod 2) + n mod 2 = (n :: int)"
proof -
  have a: "n mod 128 = n" using assms by simp
  have b: "n mod 128 = 64 * (n div 64 mod 2) + n mod 64" using bit_split [of n 64] by simp
  have c: "n mod 64 = 32 * (n div 32 mod 2) + n mod 32" using bit_split [of n 32] by simp
  have d: "n mod 32 = 16 * (n div 16 mod 2) + n mod 16" using bit_split [of n 16] by simp
  have e: "n mod 16 = 8 * (n div 8 mod 2) + n mod 8" using bit_split [of n 8] by simp
  have f: "n mod 8 = 4 * (n div 4 mod 2) + n mod 4" using bit_split [of n 4] by simp
  have g: "n mod 4 = 2 * (n div 2 mod 2) + n mod 2" using bit_split [of n 2] by simp
  from a b c d e f g show ?thesis by linarith
qed

lemma read_number_outputs:
  "read_number (tr @ [Output 27 l0, Output 22 l1, Output 5 l2, Output 6 l3, Output 13 l4,
                      Output 19 l5, Output 26 l6, LockRelease]) =
     Some (64 * (if l0 = HIGH then 1 else 0) + 32 * (if l1 = HIGH then 1 else 0)
       + 16 * (if l2 = HIGH then 1 else 0) + 8 * (if l3 = HIGH then 1 else 0)
       + 4 * (if l4 = HIGH then 1 else 0) + 2 * (if l5 = HIGH then 1 else 0)
       + (if l6 = HIGH then 1 else 0))"
  by (simp add: read_number_def line_level_def pins_def)

text \<open>
  Claim C1. For every integer \<open>number\<close> with \<open>0 < number < 128\<close>, show_number returns
  normally and extends the log by exactly: the lock acquisition, the start of the oscillator
  when the indicator is requested, seven writes to the lines \<open>pins[1]\<close> .. \<open>pins[7]\<close>
  carrying the seven binary digits of \<open>number\<close> most significant first (HIGH for 1, LOW
  for 0), and the lock release. Reading the seven lines back as a binary number gives
  \<open>number\<close> again.
\<close>

theorem show_number_round_trip:
  assumes "0 < number" and "number < 128"
  shows "fst (show_number number show_breath st) = Returned
       \<and> trace (snd (show_number number show_breath st)) =
           trace st @ [LockAcquire] @ (if show_breath then [PWMNew 17 50, PWMStart 17 0] else [])
             @ map (\<lambda>i. Output (pins ! (i + 1)) (if (number div 2 ^ (6 - i)) mod 2 = 1 then HIGH else LOW)) [0 ..< 7]
             @ [LockRelease]
       \<and> read_number (trace (snd (show_number number show_breath st))) = Some number"
proof -
  let ?n = "nat number"
  let ?outs = "map (\<lambda>i. Output (pins ! (i + 1)) (if (?n div 2 ^ (6 - i)) mod 2 = 1 then HIGH else LOW)) [0 ..< 7]"
  have conv: "((?n div 2 ^ j) mod 2 = 1) = ((number div 2 ^ j) mod 2 = 1)" for j
  proof -
    have "int ((?n div 2 ^ j) mod 2) = (number div 2 ^ j) mod 2"
      using assms by (simp add: zmod_int zdiv_int)
    then show ?thesis by (metis of_nat_1 of_nat_eq_iff)
  qed
  have run: "show_number number show_breath st =
      (Returned, emit [LockRelease] ((emit ?outs
         ((if show_breath then (emit [PWMNew 17 50, PWMStart 17 0] ((emit [LockAcquire] (st\<lparr>stdout := stdout st @ [number]\<rparr>))\<lparr>event := True\<rparr>))\<lparr>breath_pwm := Some (run (fst (standalone_pwm_init 17)))\<rparr>
           else (emit [LockAcquire] (st\<lparr>stdout := stdout st @ [number]\<rparr>))\<lparr>event := True\<rparr>)\<lparr>clean_required := True\<rparr>))\<lparr>event := False\<rparr>))"
    using assms
    by (simp add: show_number_def Let_def encode_string write_bits_bin_pad standalone_pwm_init_def pins_def)
  have tr: "trace (snd (show_number number show_breath st)) =
           trace st @ [LockAcquire] @ (if show_breath then [PWMNew 17 50, PWMStart 17 0] else [])
             @ map (\<lambda>i. Output (pins ! (i + 1)) (if (number div 2 ^ (6 - i)) mod 2 = 1 then HIGH else LOW)) [0 ..< 7]
             @ [LockRelease]"
  proof -
    have outs: "?outs = map (\<lambda>i. Output (pins ! (i + 1)) (if (number div 2 ^ (6 - i)) mod 2 = 1 then HIGH else LOW)) [0 ..< 7]"
      unfolding conv by (rule refl)
    show ?thesis unfolding run outs by (simp add: emit_def)
  qed
  have rd: "read_number (trace (snd (show_number number show_breath st))) = Some number"
  proof -
    define lv where "lv d = (if number div d mod 2 = 1 then HIGH else LOW)" for d :: int
    have bit: "(if lv d = HIGH then 1 else 0) = number div d mod 2" for d
      by (cases "number div d mod 2 = 1") (auto simp: lv_def)
    have "trace (snd (show_number number show_breath st)) =
            (trace st @ [LockAcquire] @ (if show_breath then [PWMNew 17 50, PWMStart 17 0] else []))
              @ [Output 27 (lv 64), Output 22 (lv 32), Output 5 (lv 16), Output 6 (lv 8),
                 Output 13 (lv 4), Output 19 (lv 2), Output 26 (lv 1), LockRelease]"
      unfolding tr by (simp add: upt_7 pins_def lv_def)
    then have "read_number (trace (snd (show_number number show_breath st))) =
            Some (64 * (if lv 64 = HIGH then 1 else 0) + 32 * (if lv 32 = HIGH then 1 else 0)
              + 16 * (if lv 16 = HIGH then 1 else 0) + 8 * (if lv 8 = HIGH then 1 else 0)
              + 4 * (if lv 4 = HIGH then 1 else 0) + 2 * (if lv 2 = HIGH then 1 else 0)
              + (if lv 1 = HIGH then 1 else 0))"
      by (simp only: read_number_outputs)
    also have "\<dots> = Some number"
    proof -
      have "0 \<le> number" using assms by simp
      then have sumeq: "64 * (number div 64 mod 2) + 32 * (number div 32 mod 2)
          + 16 * (number div 16 mod 2) + 8 * (number div 8 mod 2) + 4 * (number div 4 mod 2)
          + 2 * (number div 2 mod 2) + number mod 2 = number"
        using assms(2) by (rule bit_sum_128)
      show ?thesis unfolding bit by (simp only: div_by_1 sumeq)
    qed
    finally show ?thesis .
  qed
  have ok: "fst (show_number number show_breath st) = Returned"
    unfolding run by (rule fst_conv)
  from ok tr rd show ?thesis by (intro conjI)
qed

theorem show_number_round_trip_witness:
  "0 < (5::int) \<and> (5::int) < 128
   \<and> fst (show_number 5 True ledgpio_init) = Returned
   \<and> read_number (trace (snd (show_number 5 True ledgpio_init))) = Some 5"
proof -
  have h1: "0 < (5::int)" and h2: "(5::int) < 128" by simp_all
  from show_number_round_trip [OF h1 h2, of True ledgpio_init] h1 h2 show ?thesis by blast
qed

subsection \<open>Cleanup and the log\<close>

lemma displaying_5_eq:
  "displaying_5 =
     \<lparr>event = False, stop_event = False, clean_required = True,
      breath_pwm = Some \<lparr>stop_request = False, pwm = Some 17, future = Some Pending\<rparr>,
      trace = [SetModeBCM, Setup pins, LockAcquire, PWMNew 17 50, PWMStart 17 0, Output 27 LOW, Output 22 LOW,
               Output 5 LOW, Output 6 LOW, Output 13 HIGH, Output 19 LOW, Output 26 HIGH,
               LockRelease],
      stdout = [5]\<rparr>"
  by code_simp

lemma clean_number_returned:
  assumes "fst (clean_number in_time st) = Returned"
  shows "trace (snd (clean_number in_time st)) =
           trace st @ [LockAcquire] @ stop_actions st @ map (\<lambda>pin. Output pin LOW) pins @ [LockRelease]"
    and "\<not> clean_required (snd (clean_number in_time st))"
    and "event (snd (clean_number in_time st)) = event st"
    and "stop_event (snd (clean_number in_time st)) = stop_event st"
    and "stdout (snd (clean_number in_time st)) = stdout st"
  using assms
  by (auto simp: clean_number_def reconcile_def emit_def stop_actions_def set_stop_def
        runnable_exit_def force_stop_def Let_def
      split: option.splits fut.splits if_splits prod.splits outcome.splits)

text \<open>
  When cleanup returns and when it raises: it raises exactly when the oscillator it holds
  has a cancelled future (CancelledError from \<^verbatim>\<open>result\<close>), has no future, or finished
  within the wait without a PWM object to stop.
\<close>

lemma clean_number_returns_iff:
  "fst (clean_number in_time st) = Returned \<longleftrightarrow>
     (case breath_pwm st of
        None \<Rightarrow> True
      | Some osc \<Rightarrow>
          future osc = Some Finished
          \<or> (future osc = Some Pending \<and> (in_time \<longrightarrow> pwm osc \<noteq> None)))"
  by (auto simp: clean_number_def reconcile_def emit_def set_stop_def
        runnable_exit_def force_stop_def Let_def
      split: option.splits fut.splits if_splits prod.splits outcome.splits)

lemma line_level_append: "line_level (tr @ as) p = foldl (level_step p) (line_level tr p) as"
  by (simp add: line_level_def)

lemma pwm_running_append: "pwm_running (tr @ as) p = foldl (pwm_step p) (pwm_running tr p) as"
  by (simp add: pwm_running_def)

lemma line_level_all_low:
  "pin \<in> set pins \<Longrightarrow>
   line_level (tr @ [LockAcquire] @ as @ map (\<lambda>pin. Output pin LOW) pins @ [LockRelease]) pin = Some LOW"
  by (auto simp: line_level_append pins_def)

lemma pwm_step_outputs: "foldl (pwm_step p) b (map (\<lambda>pin. Output pin LOW) ps) = b"
  by (induction ps) auto

lemma forced_stop:
  assumes "breath_pwm st = Some osc" and "future osc = Some Pending"
  shows "clean_number False st =
           (Returned,
            st\<lparr>breath_pwm := Some (osc\<lparr>stop_request := True, future := Some Cancelled, pwm := None\<rparr>),
               trace := trace st @ [LockAcquire] @ stop_actions st
                          @ map (\<lambda>pin. Output pin LOW) pins @ [LockRelease],
               clean_required := False\<rparr>)"
  using assms
  by (cases "pwm osc")
     (simp_all add: clean_number_def reconcile_def emit_def stop_actions_def set_stop_def
        force_stop_def Let_def)

subsection \<open>Rejected numbers\<close>

text \<open>
  Claim C3. For every integer \<open>number\<close> with \<open>number \<le> 0\<close> or \<open>number \<ge> 128\<close>, show_number
  raises ValueError and the coordinator is as before the call except for the line printed
  on standard output: nothing is added to the log (no line write), no oscillator is created
  or started, and clean_required, event and stop_event keep their values.
\<close>

theorem show_number_out_of_range:
  assumes "number \<le> 0 \<or> 128 \<le> number"
  shows "show_number number show_breath st = (Raised ValueError, st\<lparr>stdout := stdout st @ [number]\<rparr>)
       \<and> trace (snd (show_number number show_breath st)) = trace st
       \<and> breath_pwm (snd (show_number number show_breath st)) = breath_pwm st
       \<and> clean_required (snd (show_number number show_breath st)) = clean_required st"
  using assms by (auto simp: show_number_def Let_def)

theorem show_number_out_of_range_witness:
  "show_number 128 True ledgpio_init = (Raised ValueError, ledgpio_init\<lparr>stdout := stdout ledgpio_init @ [128]\<rparr>)
   \<and> show_number 0 True displaying_5 = (Raised ValueError, displaying_5\<lparr>stdout := stdout displaying_5 @ [0]\<rparr>)
   \<and> trace (snd (show_number 0 True displaying_5)) = trace displaying_5
   \<and> clean_required (snd (show_number 0 True displaying_5))"
proof -
  have a: "(128::int) \<le> 0 \<or> 128 \<le> (128::int)" by simp
  have b: "(0::int) \<le> 0 \<or> 128 \<le> (0::int)" by simp
  have c: "clean_required displaying_5" by (simp add: displaying_5_eq)
  from show_number_out_of_range [OF a, of True ledgpio_init]
       show_number_out_of_range [OF b, of True displaying_5] c
  show ?thesis by simp
qed

subsection \<open>The forced stop\<close>

text \<open>
  Claim C4. Let the coordinator hold an oscillator whose future is still running, with its
  PWM object on line \<open>p\<close>, and let no other line of the coordinator have PWM running. If the
  one-second wait of clean_number times out, clean_number returns normally (the timeout is
  caught), the oscillator's future is cancelled and its PWM object stopped and dropped, the
  log is extended by the lock acquisition, the PWM stop on \<open>p\<close>, a LOW write on each of the
  eight lines and the lock release, every line of the coordinator then reads LOW, no PWM
  runs on \<open>p\<close>, and clean_required is clear.
\<close>

theorem clean_number_forced_stop:
  assumes "breath_pwm st = Some osc" and "future osc = Some Pending" and "pwm osc = Some p"
    and "\<forall>pin \<in> set pins. pin \<noteq> p \<longrightarrow> \<not> pwm_running (trace st) pin"
  shows "fst (clean_number False st) = Returned
       \<and> breath_pwm (snd (clean_number False st)) =
           Some (osc\<lparr>stop_request := True, future := Some Cancelled, pwm := None\<rparr>)
       \<and> trace (snd (clean_number False st)) =
           trace st @ [LockAcquire, PWMStop p] @ map (\<lambda>pin. Output pin LOW) pins @ [LockRelease]
       \<and> (\<forall>pin \<in> set pins. reads_low (trace (snd (clean_number False st))) pin)
       \<and> \<not> pwm_running (trace (snd (clean_number False st))) p
       \<and> \<not> clean_required (snd (clean_number False st))"
proof -
  have sa: "stop_actions st = [PWMStop p]"
    using assms(1-3) by (simp add: stop_actions_def)
  note fs = forced_stop [OF assms(1,2)]
  have tr: "trace (snd (clean_number False st)) =
      trace st @ [LockAcquire] @ [PWMStop p] @ map (\<lambda>pin. Output pin LOW) pins @ [LockRelease]"
    unfolding fs sa by simp
  have run: "\<not> pwm_running (trace (snd (clean_number False st))) pin"
    if "pin \<in> set pins \<or> pin = p" for pin
    unfolding tr using that assms(4)
    by (auto simp: pwm_running_append pwm_step_outputs)
  have low: "reads_low (trace (snd (clean_number False st))) pin" if "pin \<in> set pins" for pin
    using that run [of pin] line_level_all_low [of pin "trace st" "[PWMStop p]"]
    unfolding reads_low_def tr by simp
  show ?thesis
    using low run [of p] tr by (simp add: fs)
qed

theorem clean_number_forced_stop_witness:
  "fst (clean_number False displaying_5) = Returned
   \<and> trace (snd (clean_number False displaying_5)) =
       trace displaying_5 @ [LockAcquire, PWMStop 17] @ map (\<lambda>pin. Output pin LOW) pins @ [LockRelease]
   \<and> reads_low (trace (snd (clean_number False displaying_5))) 17
   \<and> reads_low (trace (snd (clean_number False displaying_5))) 26
   \<and> \<not> clean_required (snd (clean_number False displaying_5))"
proof -
  have a: "breath_pwm displaying_5 = Some \<lparr>stop_request = False, pwm = Some 17, future = Some Pending\<rparr>"
    by (simp add: displaying_5_eq)
  have b: "future \<lparr>stop_request = False, pwm = Some 17, future = Some Pending\<rparr> = Some Pending"
    by simp
  have c: "pwm \<lparr>stop_request = False, pwm = Some (17::int), future = Some Pending\<rparr> = Some 17"
    by simp
  have d: "\<forall>pin \<in> set pins. pin \<noteq> 17 \<longrightarrow> \<not> pwm_running (trace displaying_5) pin"
    by (simp add: displaying_5_eq pins_def pwm_running_def)
  have e: "17 \<in> set pins" and f: "26 \<in> set pins" by (simp_all add: pins_def)
  from clean_number_forced_stop [OF a b c d] e f show ?thesis by blast
qed


subsection \<open>Shutdown\<close>

text \<open>
  What close does when an effect is active, and when none is active and cleanup returns.
  If event is set, close raises RuntimeError and leaves the coordinator exactly as it was:
  no line is written, the log is unchanged, and event and stop_event keep their values. If
  no effect is active, clean_required is set and cleanup returns, close returns normally
  and its log is that of cleanup followed by the release of the platform line resources,
  with clean_required clear.
\<close>

lemma close_busy_or_cleanup:
  "(event st \<longrightarrow> close in_time st = (Raised RuntimeError, st))
   \<and> (\<not> event st \<and> clean_required st \<and> fst (clean_number in_time st) = Returned \<longrightarrow>
        fst (close in_time st) = Returned
        \<and> trace (snd (close in_time st)) =
            trace st @ [LockAcquire] @ stop_actions st @ map (\<lambda>pin. Output pin LOW) pins
              @ [LockRelease] @ [GPIOCleanup]
        \<and> \<not> clean_required (snd (close in_time st)))"
proof (intro conjI impI)
  assume "event st"
  then show "close in_time st = (Raised RuntimeError, st)" by (simp add: close_def)
next
  assume h: "\<not> event st \<and> clean_required st \<and> fst (clean_number in_time st) = Returned"
  then have r: "fst (clean_number in_time st) = Returned" by simp
  then obtain st1 where c: "clean_number in_time st = (Returned, st1)"
    by (cases "clean_number in_time st") simp
  have cl: "close in_time st = (Returned, emit [GPIOCleanup] st1)"
    using h c by (simp add: close_def event_object_truthy_def)
  from clean_number_returned(1,2) [OF r] c
  have tr: "trace st1 = trace st @ [LockAcquire] @ stop_actions st @ map (\<lambda>pin. Output pin LOW) pins @ [LockRelease]"
    and cr: "\<not> clean_required st1" by simp_all
  show "fst (close in_time st) = Returned" by (simp add: cl)
  show "trace (snd (close in_time st)) =
          trace st @ [LockAcquire] @ stop_actions st @ map (\<lambda>pin. Output pin LOW) pins
            @ [LockRelease] @ [GPIOCleanup]"
    by (simp add: cl emit_def tr)
  show "\<not> clean_required (snd (close in_time st))" by (simp add: cl emit_def cr)
qed

text \<open>
  close runs cleanup also when clean_required is clear: its test is on the Event object.
\<close>

lemma close_cleans_when_flag_clear:
  "close in_time ledgpio_init =
     (Returned, emit ([LockAcquire] @ map (\<lambda>pin. Output pin LOW) pins @ [LockRelease, GPIOCleanup]) ledgpio_init)"
  by (simp add: close_def event_object_truthy_def clean_number_def reconcile_def emit_def
        ledgpio_init_def)

text \<open>When no effect is active, close raises exactly when cleanup does.\<close>

lemma close_outcome: "\<not> event st \<Longrightarrow> fst (close in_time st) = fst (clean_number in_time st)"
  by (cases "clean_number in_time st")
     (auto simp: close_def event_object_truthy_def split: outcome.splits)

text \<open>
  Claim C5 at \<^verbatim>\<open>show_number(5)\<close>, the /light request (whose cleanup force-stops the
  oscillator after the wait times out), \<^verbatim>\<open>show_number(3, show_breath=False)\<close> and then
  close. No effect is active and clean_required is set, yet close raises CancelledError:
  its cleanup meets the cancelled future of the oscillator object that is still held, and
  \<^verbatim>\<open>result\<close> raises what clean_number does not catch. Only the lock is taken and
  released: no line is driven LOW (line 26 still shows its bit), clean_required stays set
  and the platform line resources are not released. The same happens without the second
  show_number, with clean_required clear, since close runs cleanup whatever the flag holds.
\<close>

theorem close_stale_oscillator:
  "\<not> event stale_display \<and> clean_required stale_display
   \<and> fst (close False stale_display) = Raised CancelledError
   \<and> added stale_display (snd (close False stale_display)) = [LockAcquire, LockRelease]
   \<and> clean_required (snd (close False stale_display))
   \<and> line_level (trace (snd (close False stale_display))) 26 = Some HIGH
   \<and> fst (close True stale_display) = Raised CancelledError
   \<and> \<not> event after_light \<and> \<not> clean_required after_light
   \<and> fst (close False after_light) = Raised CancelledError
   \<and> added after_light (snd (close False after_light)) = [LockAcquire, LockRelease]"
  by code_simp

subsection \<open>Cleanup before an effect\<close>

text \<open>
  Flash and breath test clean_required on entry and run cleanup before they take the lock:
  a call made with the flag set is the same call made on the coordinator that cleanup
  leaves.
\<close>

lemma set_light_flash_num_cleans_first:
  assumes "clean_required st" and "fst (clean_number in_time st) = Returned"
  shows "set_light_flash_num in_time stops times' ps st =
           set_light_flash_num in_time stops times' ps (snd (clean_number in_time st))"
proof -
  obtain st1 where c: "clean_number in_time st = (Returned, st1)"
    using assms(2) by (cases "clean_number in_time st") simp
  have "\<not> clean_required st1" using clean_number_returned(2) [OF assms(2)] c by simp
  then show ?thesis using assms(1) c by (simp add: set_light_flash_num_def)
qed

lemma set_light_breath_cleans_first:
  assumes "clean_required st" and "fst (clean_number in_time st) = Returned"
  shows "set_light_breath in_time stops times' pins_arg st =
           (case (case pins_arg of None \<Rightarrow> Some pins | Some xs \<Rightarrow> resolve_pins xs) of
              None \<Rightarrow> Some (Raised IndexError, st)
            | Some ps \<Rightarrow> set_light_breath in_time stops times' pins_arg (snd (clean_number in_time st)))"
proof -
  obtain st1 where c: "clean_number in_time st = (Returned, st1)"
    using assms(2) by (cases "clean_number in_time st") simp
  have "\<not> clean_required st1" using clean_number_returned(2) [OF assms(2)] c by simp
  then show ?thesis using assms(1) c
    by (simp add: set_light_breath_def split: option.splits)
qed

text \<open>
  Claim C2 at \<^verbatim>\<open>show_number(5)\<close> followed by \<^verbatim>\<open>show_number(3)\<close>: clean_required is
  set when the second call starts, and what the second call adds to the log starts with the
  creation of a second oscillator on line 17 and has no cleanup in it: no stop of the first
  oscillator and no LOW write on line 17. The first oscillator object is replaced while its
  future is still running, and the cleanup that follows stops one PWM only.
\<close>

theorem show_number_skips_cleanup:
  "clean_required displaying_5
   \<and> added displaying_5 (snd (show_number 3 True displaying_5)) =
       [LockAcquire, PWMNew 17 50, PWMStart 17 0, Output 27 LOW, Output 22 LOW, Output 5 LOW,
        Output 6 LOW, Output 13 LOW, Output 19 HIGH, Output 26 HIGH, LockRelease]
   \<and> added (snd (show_number 3 True displaying_5))
        (snd (clean_number False (snd (show_number 3 True displaying_5)))) =
       [LockAcquire, PWMStop 17, Output 17 LOW, Output 27 LOW, Output 22 LOW, Output 5 LOW,
        Output 6 LOW, Output 13 LOW, Output 19 LOW, Output 26 LOW, LockRelease]"
  by code_simp

subsection \<open>Flash with no repetition\<close>

lemma set_light_flash_no_loop:
  assumes "times' \<le> 0" and "\<not> clean_required st"
  shows "set_light_flash in_time stops times' custom_pins is_odd st =
           (Returned, (emit [LockAcquire, LockRelease] st)\<lparr>event := False, stop_event := False\<rparr>)"
  using assms by (simp add: set_light_flash_def set_light_flash_num_def emit_def Let_def)

text \<open>
  Claim C10, as the code has it. For every repeat count \<open>times \<le> 0\<close>: when clean_required
  is clear on entry, set_light_flash returns normally, adds to the log the acquisition and
  the release of the lock and nothing else (so no line write), and leaves event and
  stop_event clear; when clean_required is set on entry and cleanup returns, the call is
  the cleanup followed by that same empty pass through the lock, so the line writes of the
  cleanup are the only ones.
\<close>

theorem set_light_flash_no_repetition:
  assumes "times' \<le> 0"
  shows "(\<not> clean_required st \<longrightarrow>
            set_light_flash in_time stops times' custom_pins is_odd st =
              (Returned, (emit [LockAcquire, LockRelease] st)\<lparr>event := False, stop_event := False\<rparr>)
            \<and> filter is_line_write (added st (snd (set_light_flash in_time stops times' custom_pins is_odd st))) = [])
       \<and> (clean_required st \<and> fst (clean_number in_time st) = Returned \<longrightarrow>
            set_light_flash in_time stops times' custom_pins is_odd st =
              (Returned, (emit [LockAcquire, LockRelease] (snd (clean_number in_time st)))
                           \<lparr>event := False, stop_event := False\<rparr>))"
proof (intro conjI impI)
  assume n: "\<not> clean_required st"
  from set_light_flash_no_loop [OF assms n]
  show "set_light_flash in_time stops times' custom_pins is_odd st =
          (Returned, (emit [LockAcquire, LockRelease] st)\<lparr>event := False, stop_event := False\<rparr>)" .
  then show "filter is_line_write (added st (snd (set_light_flash in_time stops times' custom_pins is_odd st))) = []"
    by (simp add: added_def emit_def)
next
  assume h: "clean_required st \<and> fst (clean_number in_time st) = Returned"
  then have c: "clean_required st" and r: "fst (clean_number in_time st) = Returned" by simp_all
  have n: "\<not> clean_required (snd (clean_number in_time st))"
    by (rule clean_number_returned(2) [OF r])
  have "set_light_flash in_time stops times' custom_pins is_odd st =
          set_light_flash in_time stops times' custom_pins is_odd (snd (clean_number in_time st))"
    unfolding set_light_flash_def Let_def by (rule set_light_flash_num_cleans_first [OF c r])
  also have "\<dots> = (Returned, (emit [LockAcquire, LockRelease] (snd (clean_number in_time st)))
                           \<lparr>event := False, stop_event := False\<rparr>)"
    by (rule set_light_flash_no_loop [OF assms n])
  finally show "set_light_flash in_time stops times' custom_pins is_odd st =
              (Returned, (emit [LockAcquire, LockRelease] (snd (clean_number in_time st)))
                           \<lparr>event := False, stop_event := False\<rparr>)" .
qed

theorem set_light_flash_no_repetition_witness:
  "set_light_flash False never (- 2) None True ledgpio_init =
     (Returned, (emit [LockAcquire, LockRelease] ledgpio_init)\<lparr>event := False, stop_event := False\<rparr>)
   \<and> filter is_line_write (added ledgpio_init (snd (set_light_flash False never (- 2) None True ledgpio_init))) = []
   \<and> set_light_flash False never 0 None True displaying_5 =
       (Returned, (emit [LockAcquire, LockRelease] (snd (clean_number False displaying_5)))
                    \<lparr>event := False, stop_event := False\<rparr>)"
proof -
  have a: "(- 2 :: int) \<le> 0" and b: "(0::int) \<le> 0" by simp_all
  have c: "\<not> clean_required ledgpio_init" by (simp add: ledgpio_init_def)
  have d: "clean_required displaying_5 \<and> fst (clean_number False displaying_5) = Returned"
    by (simp add: clean_number_returns_iff) (simp add: displaying_5_eq)
  from set_light_flash_no_repetition [OF a, of ledgpio_init False never None True] c
       set_light_flash_no_repetition [OF b, of displaying_5 False never None True] d
  show ?thesis by blast
qed

text \<open>
  Claim C10 as stated fails when clean_required is set on entry: after
  \<^verbatim>\<open>show_number(5)\<close>, \<^verbatim>\<open>set_light_flash(0)\<close> stops the oscillator's PWM and writes LOW
  to all eight lines.
\<close>

theorem set_light_flash_zero_writes_counterexample:
  "filter is_line_write (added displaying_5 (snd (set_light_flash False never 0 None True displaying_5))) =
     [PWMStop 17, Output 17 LOW, Output 27 LOW, Output 22 LOW, Output 5 LOW, Output 6 LOW,
      Output 13 LOW, Output 19 LOW, Output 26 LOW]"
  by code_simp


subsection \<open>The loops\<close>












subsection \<open>Repetitions of the breath effect\<close>





subsection \<open>One repetition of the breath ramp\<close>

lemma duty_writes_append: "duty_writes p (xs @ ys) = duty_writes p xs @ duty_writes p ys"
  by (induction p xs rule: duty_writes.induct) simp_all

lemma sleeps_append: "sleeps (xs @ ys) = sleeps xs @ sleeps ys"
  by (induction xs rule: sleeps.induct) simp_all

lemma duty_writes_other:
  "p \<notin> set pwms \<Longrightarrow> duty_writes p (map (\<lambda>q. ChangeDutyCycle q d) pwms) = []"
  by (induction pwms) auto

lemma duty_writes_once:
  "distinct pwms \<Longrightarrow> p \<in> set pwms \<Longrightarrow> duty_writes p (map (\<lambda>q. ChangeDutyCycle q d) pwms) = [d]"
  by (induction pwms) (auto simp: duty_writes_other)

lemma sleeps_duty: "sleeps (map (\<lambda>q. ChangeDutyCycle q d) pwms) = []"
  by (induction pwms) auto

lemma duty_writes_ramp_step:
  "distinct pwms \<Longrightarrow> p \<in> set pwms \<Longrightarrow> duty_writes p (ramp_step pwms dc) = [int dc * 10]"
  by (simp add: ramp_step_def duty_writes_append duty_writes_once)

lemma sleeps_ramp_step: "sleeps (ramp_step pwms dc) = [50]"
  by (simp add: ramp_step_def sleeps_append sleeps_duty)

lemma upt_10: "[0 ..< 10] = [0, 1, 2, 3, 4, 5, 6, 7, 8, 9 :: nat]"
  by (simp add: upt_rec)

lemma upt_11: "[0 ..< 11] = [0, 1, 2, 3, 4, 5, 6, 7, 8, 9, 10 :: nat]"
  by (simp add: upt_rec)

lemma line_view_append: "line_view p (xs @ ys) = line_view p xs @ line_view p ys"
  by (induction p xs rule: line_view.induct) simp_all

lemma line_view_other:
  "p \<notin> set pwms \<Longrightarrow> line_view p (map (\<lambda>q. ChangeDutyCycle q d) pwms) = []"
  by (induction pwms) auto

lemma line_view_once:
  "distinct pwms \<Longrightarrow> p \<in> set pwms \<Longrightarrow>
   line_view p (map (\<lambda>q. ChangeDutyCycle q d) pwms) = [ChangeDutyCycle p d]"
  by (induction pwms) (auto simp: line_view_other)

lemma line_view_ramp_step:
  "distinct pwms \<Longrightarrow> p \<in> set pwms \<Longrightarrow>
   line_view p (ramp_step pwms dc) = [ChangeDutyCycle p (int dc * 10), Sleep 50]"
  by (simp add: ramp_step_def line_view_append line_view_once)

text \<open>
  Claim C6, as the code has it. One repetition of the breath effect is, in this order: for
  each of the duty cycles 0, 10, .., 90 a write of it to every PWM object followed by a
  sleep of 50 ms (ten steps); a further sleep of 50 ms; for each of the duty cycles 100,
  90, .., 0 a write of it to every PWM object followed by a sleep of 50 ms (eleven steps).
  So on the line of each of distinct PWM objects every duty cycle written is held for 50 ms
  before the next write, except 90 on the way up, which is held for the pause as well; the
  duty cycle 100 is first written after the pause, and the way down has one step more than
  the way up.
\<close>

theorem unsafe_light_breath_ramp:
  assumes "distinct pwms" and "p \<in> set pwms"
  shows "unsafe_light_breath pwms =
           concat (map (\<lambda>d. map (\<lambda>q. ChangeDutyCycle q d) pwms @ [Sleep 50])
                     [0, 10, 20, 30, 40, 50, 60, 70, 80, 90])
             @ [Sleep 50]
             @ concat (map (\<lambda>d. map (\<lambda>q. ChangeDutyCycle q d) pwms @ [Sleep 50])
                         [100, 90, 80, 70, 60, 50, 40, 30, 20, 10, 0])
       \<and> line_view p (unsafe_light_breath pwms) =
           [ChangeDutyCycle p 0, Sleep 50, ChangeDutyCycle p 10, Sleep 50,
            ChangeDutyCycle p 20, Sleep 50, ChangeDutyCycle p 30, Sleep 50,
            ChangeDutyCycle p 40, Sleep 50, ChangeDutyCycle p 50, Sleep 50,
            ChangeDutyCycle p 60, Sleep 50, ChangeDutyCycle p 70, Sleep 50,
            ChangeDutyCycle p 80, Sleep 50, ChangeDutyCycle p 90, Sleep 50,
            Sleep 50,
            ChangeDutyCycle p 100, Sleep 50, ChangeDutyCycle p 90, Sleep 50,
            ChangeDutyCycle p 80, Sleep 50, ChangeDutyCycle p 70, Sleep 50,
            ChangeDutyCycle p 60, Sleep 50, ChangeDutyCycle p 50, Sleep 50,
            ChangeDutyCycle p 40, Sleep 50, ChangeDutyCycle p 30, Sleep 50,
            ChangeDutyCycle p 20, Sleep 50, ChangeDutyCycle p 10, Sleep 50,
            ChangeDutyCycle p 0, Sleep 50]
       \<and> duty_writes p (ramp_up pwms) = [0, 10, 20, 30, 40, 50, 60, 70, 80, 90]
       \<and> sleeps (ramp_up pwms) = replicate 10 50
       \<and> duty_writes p (ramp_down pwms) = [100, 90, 80, 70, 60, 50, 40, 30, 20, 10, 0]
       \<and> sleeps (ramp_down pwms) = replicate 11 50
       \<and> duty_writes p (unsafe_light_breath pwms) =
           [0, 10, 20, 30, 40, 50, 60, 70, 80, 90, 100, 90, 80, 70, 60, 50, 40, 30, 20, 10, 0]
       \<and> sleeps (unsafe_light_breath pwms) = replicate 22 50"
proof -
  note step = duty_writes_ramp_step [OF assms]
  have whole: "unsafe_light_breath pwms =
           concat (map (\<lambda>d. map (\<lambda>q. ChangeDutyCycle q d) pwms @ [Sleep 50])
                     [0, 10, 20, 30, 40, 50, 60, 70, 80, 90])
             @ [Sleep 50]
             @ concat (map (\<lambda>d. map (\<lambda>q. ChangeDutyCycle q d) pwms @ [Sleep 50])
                         [100, 90, 80, 70, 60, 50, 40, 30, 20, 10, 0])"
    by (simp add: unsafe_light_breath_def ramp_up_def ramp_down_def ramp_step_def upt_10 upt_11)
  have view: "line_view p (unsafe_light_breath pwms) =
           [ChangeDutyCycle p 0, Sleep 50, ChangeDutyCycle p 10, Sleep 50,
            ChangeDutyCycle p 20, Sleep 50, ChangeDutyCycle p 30, Sleep 50,
            ChangeDutyCycle p 40, Sleep 50, ChangeDutyCycle p 50, Sleep 50,
            ChangeDutyCycle p 60, Sleep 50, ChangeDutyCycle p 70, Sleep 50,
            ChangeDutyCycle p 80, Sleep 50, ChangeDutyCycle p 90, Sleep 50,
            Sleep 50,
            ChangeDutyCycle p 100, Sleep 50, ChangeDutyCycle p 90, Sleep 50,
            ChangeDutyCycle p 80, Sleep 50, ChangeDutyCycle p 70, Sleep 50,
            ChangeDutyCycle p 60, Sleep 50, ChangeDutyCycle p 50, Sleep 50,
            ChangeDutyCycle p 40, Sleep 50, ChangeDutyCycle p 30, Sleep 50,
            ChangeDutyCycle p 20, Sleep 50, ChangeDutyCycle p 10, Sleep 50,
            ChangeDutyCycle p 0, Sleep 50]"
    by (simp add: unsafe_light_breath_def ramp_up_def ramp_down_def upt_10 upt_11
          line_view_append line_view_ramp_step [OF assms])
  have up: "duty_writes p (ramp_up pwms) = [0, 10, 20, 30, 40, 50, 60, 70, 80, 90]"
    by (simp add: ramp_up_def upt_10 duty_writes_append step)
  have down: "duty_writes p (ramp_down pwms) = [100, 90, 80, 70, 60, 50, 40, 30, 20, 10, 0]"
    by (simp add: ramp_down_def upt_11 duty_writes_append step)
  have sup: "sleeps (ramp_up pwms) = replicate 10 50"
    by (simp add: ramp_up_def upt_10 sleeps_append sleeps_ramp_step numeral_eq_Suc)
  have sdown: "sleeps (ramp_down pwms) = replicate 11 50"
    by (simp add: ramp_down_def upt_11 sleeps_append sleeps_ramp_step numeral_eq_Suc)
  have all: "duty_writes p (unsafe_light_breath pwms) =
           [0, 10, 20, 30, 40, 50, 60, 70, 80, 90, 100, 90, 80, 70, 60, 50, 40, 30, 20, 10, 0]"
    by (simp add: unsafe_light_breath_def duty_writes_append up down)
  have sall: "sleeps (unsafe_light_breath pwms) = replicate 22 50"
    by (simp add: unsafe_light_breath_def sleeps_append sup sdown numeral_eq_Suc)
  from whole view up down sup sdown all sall show ?thesis by (intro conjI)
qed

theorem unsafe_light_breath_ramp_witness:
  "line_view 27 (unsafe_light_breath pins) =
           [ChangeDutyCycle 27 0, Sleep 50, ChangeDutyCycle 27 10, Sleep 50,
            ChangeDutyCycle 27 20, Sleep 50, ChangeDutyCycle 27 30, Sleep 50,
            ChangeDutyCycle 27 40, Sleep 50, ChangeDutyCycle 27 50, Sleep 50,
            ChangeDutyCycle 27 60, Sleep 50, ChangeDutyCycle 27 70, Sleep 50,
            ChangeDutyCycle 27 80, Sleep 50, ChangeDutyCycle 27 90, Sleep 50,
            Sleep 50,
            ChangeDutyCycle 27 100, Sleep 50, ChangeDutyCycle 27 90, Sleep 50,
            ChangeDutyCycle 27 80, Sleep 50, ChangeDutyCycle 27 70, Sleep 50,
            ChangeDutyCycle 27 60, Sleep 50, ChangeDutyCycle 27 50, Sleep 50,
            ChangeDutyCycle 27 40, Sleep 50, ChangeDutyCycle 27 30, Sleep 50,
            ChangeDutyCycle 27 20, Sleep 50, ChangeDutyCycle 27 10, Sleep 50,
            ChangeDutyCycle 27 0, Sleep 50]
   \<and> duty_writes 27 (ramp_up pins) = [0, 10, 20, 30, 40, 50, 60, 70, 80, 90]
   \<and> duty_writes 27 (ramp_down pins) = [100, 90, 80, 70, 60, 50, 40, 30, 20, 10, 0]
   \<and> sleeps (unsafe_light_breath pins) = replicate 22 50"
proof -
  have a: "distinct pins" by (simp add: pins_def)
  have b: "27 \<in> set pins" by (simp add: pins_def)
  from unsafe_light_breath_ramp [OF a b] show ?thesis by blast
qed

text \<open>
  Claim C6 as stated has the way up reach 100 in its ten steps, before the pause, and the
  way down take the same steps. On the single line 17 the ten steps before the pause end
  at 90, not 100, and the way down has eleven steps, not ten.
\<close>

theorem unsafe_light_breath_counterexample:
  "unsafe_light_breath [17] = ramp_up [17] @ [Sleep 50] @ ramp_down [17]
   \<and> duty_writes 17 (ramp_up [17]) = [0, 10, 20, 30, 40, 50, 60, 70, 80, 90]
   \<and> last (duty_writes 17 (ramp_up [17])) \<noteq> 100
   \<and> length (duty_writes 17 (ramp_up [17])) = 10
   \<and> length (duty_writes 17 (ramp_down [17])) = 11"
  by code_simp


subsection \<open>The oscillator and its stop flag\<close>



text \<open>The statements of the body do not read the stop flag.\<close>

lemma runnable_step_request_stop:
  assumes "pc t = InBody k"
  shows "runnable_step (request_stop t) = request_stop (runnable_step t)"
proof (cases "k < length runnable_body")
  case True
  then show ?thesis
    using assms
    by (cases "runnable_body ! k")
       (auto simp: runnable_step_def request_stop_def set_stop_def advance_def split: option.splits)
next
  case False
  then show ?thesis using assms by (simp add: runnable_step_def request_stop_def)
qed














text \<open>
  The wait before the flag is seen is a whole pass when the request comes just after the
  test: 44 statements, 21 duty-cycle writes among them, and 6.2 s of sleeping.
\<close>

lemma runnable_worst_case:
  "remaining (InBody 0) = 44
   \<and> length (duty_writes 17 (rest_of_pass 17 (InBody 0))) = 21
   \<and> sleep_total (rest_of_pass 17 (InBody 0)) = 6200"
  by code_simp

end
